theory Spec2Isabelle
  imports Main "HOL-Library.Word" "HOL-Library.List_Lexorder" "HOL-Library.AList"
begin

section \<open>Text, bytes and the standard-library routines the program calls\<close>

text \<open>
  A Python \<open>str\<close> is a sequence of Unicode code points, a \<open>bytes\<close> object a sequence
  of octets. Comparison of two \<open>str\<close> values is the lexicographic order of their code
  points, which is the order of \<open>nat list\<close> from \<open>List_Lexorder\<close>.
\<close>

type_synonym ustr = "nat list"
type_synonym byte = "8 word"

definition str :: "string \<Rightarrow> ustr" where
  "str s = map of_char s"

definition bytes_of :: "string \<Rightarrow> byte list" where
  "bytes_of s = map of_char s"

text \<open>\<open>str.isspace\<close> of one code point; the class \<open>\s\<close> of \<open>re\<close> on a \<open>str\<close> pattern.\<close>

definition isspace :: "nat \<Rightarrow> bool" where
  "isspace c \<longleftrightarrow>
     (9 \<le> c \<and> c \<le> 13) \<or> (28 \<le> c \<and> c \<le> 32) \<or> c = 0x85 \<or> c = 0xA0 \<or> c = 0x1680 \<or>
     (0x2000 \<le> c \<and> c \<le> 0x200A) \<or> c = 0x2028 \<or> c = 0x2029 \<or> c = 0x202F \<or>
     c = 0x205F \<or> c = 0x3000"

text \<open>
  Lower-casing as \<open>re.I\<close> applies it to the letters of the pattern below: the only code
  points whose lower case is one of \<open>p a r e n t\<close> or \<open>a .. f\<close> are the ASCII capitals.
\<close>

definition tolower :: "nat \<Rightarrow> nat" where
  "tolower c = (if 65 \<le> c \<and> c \<le> 90 then c + 32 else c)"

definition hexdigit :: "nat \<Rightarrow> bool" where
  "hexdigit c \<longleftrightarrow> (48 \<le> c \<and> c \<le> 57) \<or> (97 \<le> tolower c \<and> tolower c \<le> 102)"

definition strip :: "ustr \<Rightarrow> ustr" where
  "strip s = rev (dropWhile isspace (rev (dropWhile isspace s)))"

definition join :: "ustr \<Rightarrow> ustr list \<Rightarrow> ustr" where
  "join sep xs = concat (case xs of [] \<Rightarrow> [] | x # r \<Rightarrow> x # map (\<lambda>y. sep @ y) r)"

subsection \<open>\<open>bytes.decode('utf-8', errors='ignore')\<close>\<close>

text \<open>
  \<open>utf8_head\<close> reads one well-formed UTF-8 sequence (Unicode table 3-7: no overlong
  form, no surrogate, nothing above U+10FFFF) at the front of the input and gives its code
  point and its length. With \<open>errors='ignore'\<close> the decoder leaves out the bytes that
  start no such sequence and goes on behind them.
\<close>

definition cont :: "byte \<Rightarrow> bool" where
  "cont b \<longleftrightarrow> 0x80 \<le> b \<and> b \<le> 0xBF"

fun utf8_head :: "byte list \<Rightarrow> (nat \<times> nat) option" where
  "utf8_head [] = None"
| "utf8_head (a # bs) =
    (if a < 0x80 then Some (unat a, 1)
     else if 0xC2 \<le> a \<and> a \<le> 0xDF then
       (case bs of
          b # r \<Rightarrow> if cont b then Some ((unat a - 0xC0) * 64 + (unat b - 0x80), 2) else None
        | _ \<Rightarrow> None)
     else if 0xE0 \<le> a \<and> a \<le> 0xEF then
       (case bs of
          b # c # r \<Rightarrow>
            if (if a = 0xE0 then 0xA0 \<le> b \<and> b \<le> 0xBF
                else if a = 0xED then 0x80 \<le> b \<and> b \<le> 0x9F else cont b) \<and> cont c
            then Some ((unat a - 0xE0) * 4096 + (unat b - 0x80) * 64 + (unat c - 0x80), 3)
            else None
        | _ \<Rightarrow> None)
     else if 0xF0 \<le> a \<and> a \<le> 0xF4 then
       (case bs of
          b # c # d # r \<Rightarrow>
            if (if a = 0xF0 then 0x90 \<le> b \<and> b \<le> 0xBF
                else if a = 0xF4 then 0x80 \<le> b \<and> b \<le> 0x8F else cont b) \<and> cont c \<and> cont d
            then Some ((unat a - 0xF0) * 262144 + (unat b - 0x80) * 4096 +
                       (unat c - 0x80) * 64 + (unat d - 0x80), 4)
            else None
        | _ \<Rightarrow> None)
     else None)"

function utf8_decode_ignore :: "byte list \<Rightarrow> ustr" where
  "utf8_decode_ignore [] = []"
| "utf8_decode_ignore (a # bs) =
    (case utf8_head (a # bs) of
       Some (cp, n) \<Rightarrow> cp # utf8_decode_ignore (drop (n - 1) bs)
     | None \<Rightarrow> utf8_decode_ignore bs)"
  by pat_completeness auto
termination
  by (relation "measure length") auto

subsection \<open>\<open>re.compile(r'^parent\s([0-9a-f]{40})$', re.I | re.M).findall\<close>\<close>

text \<open>
  \<open>parent_match s\<close> is the match of the pattern at the front of \<open>s\<close>, where \<open>s\<close> starts
  at the beginning of a line: the six letters of \<open>parent\<close> in either case, one white-space
  character, forty hexadecimal digits (the group), and then the end of the text or a
  newline. \<open>findall\<close> scans from the left, tries the pattern where a line begins (at the
  start of the text and behind every newline), collects the group of every match and goes
  on behind the match.
\<close>

definition parent_match :: "ustr \<Rightarrow> ustr option" where
  "parent_match s =
     (if 47 \<le> length s \<and> map tolower (take 6 s) = str ''parent'' \<and> isspace (s ! 6) \<and>
         list_all hexdigit (take 40 (drop 7 s)) \<and> (length s = 47 \<or> s ! 47 = 10)
      then Some (take 40 (drop 7 s)) else None)"

function findall_from :: "bool \<Rightarrow> ustr \<Rightarrow> ustr list" where
  "findall_from bol [] = []"
| "findall_from bol (c # cs) =
    (case (if bol then parent_match (c # cs) else None) of
       Some h \<Rightarrow> h # findall_from False (drop 46 cs)
     | None \<Rightarrow> findall_from (c = 10) cs)"
  by pat_completeness auto
termination
  by (relation "measure (\<lambda>(bol, s). length s)") auto

definition parent_regex_findall :: "ustr \<Rightarrow> ustr list" where
  "parent_regex_findall text = findall_from True text"

section \<open>The repository on disk\<close>

text \<open>
  A loose-object file is described by what \<open>zlib.decompress\<close> makes of its contents:
  the inflated bytes, or \<open>zlib.error\<close>.

  An entry below \<open>refs/heads\<close> is described by what \<open>Path.is_file\<close> and \<open>open\<close> make of
  it: \<open>NoStat\<close> is an entry whose \<open>stat\<close> is refused (its directory may be read but not
  searched), and \<open>is_file\<close> raises \<open>PermissionError\<close> for it; \<open>Directory\<close> is an entry that
  is no regular file; a regular file carries its text, \<open>None\<close> when \<open>open\<close> or \<open>readline\<close>
  raises.

  \<open>refs_heads\<close> describes \<open>refs/heads\<close> as \<open>Path.rglob\<close> of CPython 3.11 meets it.
  \<open>rglob\<close> first asks \<open>is_dir\<close>, outside every handler: \<open>StatDenied\<close> is a \<open>refs/heads\<close>
  whose \<open>stat\<close> is refused (a directory above it may not be searched), and \<open>is_dir\<close> raises
  \<open>PermissionError\<close>. \<open>NoDirectory\<close> is a \<open>refs/heads\<close> that is absent or no directory:
  the scan yields nothing. \<open>ListDenied\<close> is a directory \<open>refs/heads\<close> that may not be read:
  \<open>scandir\<close> raises \<open>PermissionError\<close>, which the scan catches, and it yields nothing.
  \<open>Entries\<close> carries what the scan yields, each path as its parts relative to
  \<open>refs/heads\<close>, in the order of the scan.

  \<open>objects\<close> lists the files of the object store by directory name and file name.
\<close>

datatype zfile = Corrupt | Deflated "byte list"

datatype fsnode = NoStat | Directory | RegularFile "ustr option"

datatype heads_dir = StatDenied | NoDirectory | ListDenied | Entries "(ustr list \<times> fsnode) list"

record repo =
  refs_heads :: heads_dir
  objects :: "((ustr \<times> ustr) \<times> zfile) list"

datatype error =
  SystemExit nat | PermissionError | FileError | ZlibError | NotAllVisited | VisitedMore |
  NotBijection | KeyError

section \<open>find_git\<close>


section \<open>get_branches and first_line\<close>

definition first_line :: "fsnode \<Rightarrow> error + ustr" where
  "first_line p =
     (case p of
        RegularFile (Some text) \<Rightarrow> Inr (strip (takeWhile (\<lambda>c. c \<noteq> 10 \<and> c \<noteq> 13) text))
      | _ \<Rightarrow> Inl FileError)"

definition is_file :: "fsnode \<Rightarrow> error + bool" where
  "is_file p =
     (case p of
        NoStat \<Rightarrow> Inl PermissionError
      | Directory \<Rightarrow> Inr False
      | RegularFile _ \<Rightarrow> Inr True)"

definition rglob :: "heads_dir \<Rightarrow> error + (ustr list \<times> fsnode) list" where
  "rglob d =
     (case d of
        StatDenied \<Rightarrow> Inl PermissionError
      | NoDirectory \<Rightarrow> Inr []
      | ListDenied \<Rightarrow> Inr []
      | Entries ps \<Rightarrow> Inr ps)"

text \<open>The comprehension \<open>[p for p in possible_paths if p.is_file()]\<close>: it stops at the
  first path for which \<open>is_file\<close> raises.\<close>

fun files_of :: "(ustr list \<times> fsnode) list \<Rightarrow> error + (ustr list \<times> fsnode) list" where
  "files_of [] = Inr []"
| "files_of (p # ps) =
    (case is_file (snd p) of
       Inl e \<Rightarrow> Inl e
     | Inr b \<Rightarrow>
         (case files_of ps of
            Inl e \<Rightarrow> Inl e
          | Inr r \<Rightarrow> Inr (if b then p # r else r)))"

definition as_posix :: "ustr list \<Rightarrow> ustr" where
  "as_posix parts = join (str ''/'') parts"

text \<open>The dictionary comprehension: entries in the order of \<open>paths\<close>, a key written twice
  keeps its place and takes the later value.\<close>

fun branch_dict :: "(ustr list \<times> fsnode) list \<Rightarrow> (ustr \<times> ustr) list \<Rightarrow> error + (ustr \<times> ustr) list" where
  "branch_dict [] d = Inr d"
| "branch_dict (p # paths) d =
    (case first_line (snd p) of
       Inl e \<Rightarrow> Inl e
     | Inr h \<Rightarrow> branch_dict paths (AList.update (as_posix (fst p)) h d))"

definition get_branches :: "repo \<Rightarrow> error + (ustr \<times> ustr) list" where
  "get_branches git_dir =
     (case rglob (refs_heads git_dir) of
        Inl e \<Rightarrow> Inl e
      | Inr possible_paths \<Rightarrow>
          (case files_of possible_paths of
             Inl e \<Rightarrow> Inl e
           | Inr files \<Rightarrow> let paths = sort_key fst files in branch_dict paths []))"

section \<open>CommitNode\<close>

text \<open>
  \<open>children\<close> is a Python \<open>set\<close> that the program iterates: it is kept as the list of its
  members in the order they were added. The order in which Python iterates a \<open>set\<close> of
  \<open>str\<close> is not that order: it follows the hashes of the strings, which are salted anew
  for every process. The functions that iterate a set take it as the parameter \<open>si\<close>,
  from the members as added to the members as iterated. \<open>parents\<close> is only tested for
  emptiness and shrunk, so it is a plain set.
\<close>

record CommitNode =
  commit_hash :: ustr
  parents :: "ustr set"
  children :: "ustr list"

definition new_node :: "ustr \<Rightarrow> CommitNode" where
  "new_node h = \<lparr>commit_hash = h, parents = {}, children = []\<rparr>"


definition add_child :: "ustr \<Rightarrow> CommitNode \<Rightarrow> CommitNode" where
  "add_child child_hash n =
     n\<lparr>children := (if child_hash \<in> set (children n) then children n
                     else children n @ [child_hash])\<rparr>"

definition set_parents :: "ustr list \<Rightarrow> CommitNode \<Rightarrow> CommitNode" where
  "set_parents parent_hashes n = n\<lparr>parents := set parent_hashes\<rparr>"

type_synonym graph = "(ustr \<times> CommitNode) list"

section \<open>get_graph\<close>

definition read_commit :: "repo \<Rightarrow> ustr \<Rightarrow> error + ustr" where
  "read_commit git_dir h =
     (case map_of (objects git_dir) (take 2 h, drop 2 h) of
        None \<Rightarrow> Inl FileError
      | Some Corrupt \<Rightarrow> Inl ZlibError
      | Some (Deflated bs) \<Rightarrow> Inr (utf8_decode_ignore bs))"

definition ensure_node :: "ustr \<Rightarrow> graph \<Rightarrow> graph" where
  "ensure_node h g = (if map_of g h = None then g @ [(h, new_node h)] else g)"

text \<open>The loop over \<open>parent_hashes\<close>, on the graph and the work list.\<close>

fun add_parents :: "ustr \<Rightarrow> ustr set \<Rightarrow> ustr list \<Rightarrow> graph \<times> ustr list \<Rightarrow> graph \<times> ustr list" where
  "add_parents h vis [] (g, tv) = (g, tv)"
| "add_parents h vis (parent # ps) (g, tv) =
     add_parents h vis ps
       (AList.map_entry parent (add_child h) (ensure_node parent g),
        if parent \<notin> vis then tv @ [parent] else tv)"

text \<open>The state of the \<open>while to_visit\<close> loop. \<open>opened\<close> is the trace of the calls of
  \<open>open\<close> on object files, by commit identifier.\<close>

record loader =
  graph :: graph
  to_visit :: "ustr list"
  visited :: "ustr set"
  opened :: "ustr list"

definition expand :: "ustr \<Rightarrow> ustr list \<Rightarrow> loader \<Rightarrow> loader" where
  "expand h parent_hashes s =
     (let g = AList.map_entry h (set_parents parent_hashes)
                (ensure_node h (graph s));
          (g, tv) = add_parents h (visited s) parent_hashes (g, to_visit s)
      in s\<lparr>graph := g, to_visit := tv, visited := insert h (visited s)\<rparr>)"

partial_function (option) get_graph_loop :: "repo \<Rightarrow> loader \<Rightarrow> (loader \<times> error option) option" where
  "get_graph_loop git_dir s =
     (if to_visit s = [] then Some (s, None)
      else
        let h = last (to_visit s);
            s1 = s\<lparr>to_visit := butlast (to_visit s)\<rparr>
        in if h \<in> visited s1 then get_graph_loop git_dir s1
           else
             let s2 = s1\<lparr>opened := opened s1 @ [h]\<rparr>
             in case read_commit git_dir h of
                  Inl e \<Rightarrow> Some (s2, Some e)
                | Inr decompressed_contents \<Rightarrow>
                    get_graph_loop git_dir
                      (expand h (parent_regex_findall decompressed_contents) s2))"

definition loader_init :: "(ustr \<times> ustr) list \<Rightarrow> loader" where
  "loader_init heads = \<lparr>graph = [], to_visit = map snd heads, visited = {}, opened = []\<rparr>"

definition get_graph :: "(ustr \<times> ustr) list \<Rightarrow> repo \<Rightarrow> (error + graph) option" where
  "get_graph heads git_dir =
     (case get_graph_loop git_dir (loader_init heads) of
        None \<Rightarrow> None
      | Some (s, Some e) \<Rightarrow> Some (Inl e)
      | Some (s, None) \<Rightarrow>
          if card (visited s) \<noteq> length (graph s)
          then Some (Inl (if card (visited s) < length (graph s) then NotAllVisited
                          else VisitedMore))
          else Some (Inr (graph s)))"

section \<open>topo_order_commits\<close>




text \<open>One round of the printing loop: what it writes to \<open>sys.stdout\<close> for \<open>node\<close> and
  \<open>next_node\<close>, behind what is written already.\<close>

definition branch_names :: "(ustr \<times> ustr) list \<Rightarrow> ustr \<Rightarrow> ustr list" where
  "branch_names branch_heads node_hash = [key. (key, value) \<leftarrow> branch_heads, value = node_hash]"

definition print_commit ::
  "(ustr list \<Rightarrow> ustr list) \<Rightarrow> (ustr \<times> ustr) list \<Rightarrow> CommitNode list \<Rightarrow>
     CommitNode \<times> CommitNode option \<Rightarrow> ustr \<Rightarrow> ustr" where
  "print_commit si branch_heads topo_sorted pair out =
     (let node = fst pair; next_node = snd pair;
          node_hash = commit_hash node;
          out = out @ node_hash;
          out = (if node_hash \<in> snd ` set branch_heads
                 then fold (\<lambda>name out. out @ str '' '' @ name)
                        (sort (branch_names branch_heads node_hash)) out
                 else out);
          out = (case next_node of
                   None \<Rightarrow> out
                 | Some nn \<Rightarrow>
                     if node_hash \<notin> set (children nn)
                     then
                       let parent_hashes =
                             [commit_hash n. n \<leftarrow> topo_sorted, node_hash \<in> set (children n)];
                           out = out @ str ''\<newline>'' @ join (str '' '') parent_hashes @ str ''=\<newline>''
                       in out @ str ''\<newline>='' @ join (str '' '') (si (children nn))
                     else out)
      in out @ str ''\<newline>'')"

definition print_commits ::
  "(ustr list \<Rightarrow> ustr list) \<Rightarrow> (ustr \<times> ustr) list \<Rightarrow> CommitNode list \<Rightarrow> ustr" where
  "print_commits si branch_heads topo_sorted =
     fold (print_commit si branch_heads topo_sorted)
       (zip topo_sorted (map Some (tl topo_sorted) @ [None])) []"


section \<open>The format of the report as the specification words it\<close>

text \<open>
  The discontinuity block in the words of the specification: a newline, the space-joined
  identifiers of the nodes of the sequence whose children contain the current identifier,
  the character \<open>=\<close>, a newline, then \<open>=\<close> and the space-joined children of the following
  commit. It is compared below with what \<open>print_commit\<close> writes.
\<close>

definition discontinuity_block_claimed :: "CommitNode list \<Rightarrow> ustr \<Rightarrow> ustr list \<Rightarrow> ustr" where
  "discontinuity_block_claimed topo_sorted node_hash next_children =
     str ''\<newline>'' @
     join (str '' '') [commit_hash n. n \<leftarrow> topo_sorted, node_hash \<in> set (children n)] @
     str ''='' @ str ''\<newline>'' @
     str ''='' @ join (str '' '') next_children"

text \<open>
  The decoder in the words of the specification: it reads the well-formed sequences as
  \<open>utf8_decode_ignore\<close> does, and wherever a byte starts no well-formed sequence it puts the
  substitution character U+FFFD in its place and goes on behind it.
\<close>

function utf8_decode_replace_claimed :: "byte list \<Rightarrow> ustr" where
  "utf8_decode_replace_claimed [] = []"
| "utf8_decode_replace_claimed (a # bs) =
    (case utf8_head (a # bs) of
       Some (cp, n) \<Rightarrow> cp # utf8_decode_replace_claimed (drop (n - 1) bs)
     | None \<Rightarrow> 0xFFFD # utf8_decode_replace_claimed bs)"
  by pat_completeness auto
termination
  by (relation "measure length") auto

text \<open>
  The parent identifiers of a decoded object in the words of the specification: the text
  is cut into lines at the newlines, and the lines that consist of the marker \<open>parent\<close>,
  one space and forty hexadecimal digits give their digits, in the order of the lines.
\<close>

fun split_lines :: "ustr \<Rightarrow> ustr list" where
  "split_lines [] = [[]]"
| "split_lines (c # cs) =
    (if c = 10 then [] # split_lines cs
     else (case split_lines cs of [] \<Rightarrow> [[c]] | l # ls \<Rightarrow> (c # l) # ls))"

definition claimed_parent_line :: "ustr \<Rightarrow> ustr option" where
  "claimed_parent_line l =
     (if length l = 47 \<and> take 7 l = str ''parent '' \<and> list_all hexdigit (drop 7 l)
      then Some (drop 7 l) else None)"

definition claimed_parents :: "ustr \<Rightarrow> ustr list" where
  "claimed_parents body = List.map_filter claimed_parent_line (split_lines body)"

section \<open>Sample data\<close>

text \<open>Two root commits without children, as the loader builds them for two unrelated
  branch tips.\<close>

definition n1 :: CommitNode where "n1 = \<lparr>commit_hash = replicate 40 97, parents = {}, children = []\<rparr>"
definition n2 :: CommitNode where "n2 = \<lparr>commit_hash = replicate 40 98, parents = {}, children = []\<rparr>"




text \<open>A repository with the single branch \<open>main\<close> at a root commit.\<close>

definition one_branch :: repo where
  "one_branch =
     \<lparr>refs_heads = Entries [([str ''main''], RegularFile (Some (replicate 40 98 @ str ''\<newline>'')))],
      objects = [((replicate 2 98, replicate 38 98), Deflated (bytes_of ''tree''))]\<rparr>"

text \<open>A repository with the branch \<open>main\<close> at a commit that has one parent, a root
  commit, and the graph the loader builds from it.\<close>

definition chain :: repo where
  "chain =
     \<lparr>refs_heads = Entries [([str ''main''], RegularFile (Some (replicate 40 99 @ str ''\<newline>'')))],
      objects = [((replicate 2 99, replicate 38 99),
                  Deflated (bytes_of ''parent '' @ replicate 40 98 @ bytes_of ''\<newline>'')),
                 ((replicate 2 98, replicate 38 98), Deflated (bytes_of ''tree''))]\<rparr>"

definition chain_graph :: graph where
  "chain_graph =
     [(replicate 40 99, \<lparr>commit_hash = replicate 40 99, parents = {replicate 40 98}, children = []\<rparr>),
      (replicate 40 98, \<lparr>commit_hash = replicate 40 98, parents = {}, children = [replicate 40 99]\<rparr>)]"


section \<open>Notions used in the proofs\<close>

text \<open>
  The two ways a round of the loader's loop starts: the popped identifier is dropped, or
  its object file is opened. \<open>todo\<close> counts the object files that no visited identifier
  names; it bounds the number of rounds that read an object.
\<close>

definition pop :: "loader \<Rightarrow> loader" where
  "pop s = s\<lparr>to_visit := butlast (to_visit s)\<rparr>"

definition pop_open :: "loader \<Rightarrow> loader" where
  "pop_open s = s\<lparr>to_visit := butlast (to_visit s), opened := opened s @ [last (to_visit s)]\<rparr>"

definition todo :: "repo \<Rightarrow> loader \<Rightarrow> nat" where
  "todo git_dir s = card (fst ` set (objects git_dir) - (\<lambda>h. (take 2 h, drop 2 h)) ` visited s)"

definition opened_once :: "loader \<Rightarrow> bool" where
  "opened_once s \<longleftrightarrow> distinct (opened s) \<and> set (opened s) \<subseteq> visited s"

text \<open>
  \<open>par\<close> and \<open>chi\<close> read the parents and the children of an identifier off a graph,
  empty where the graph has no node for it. \<open>declared_parents\<close> are the identifiers that
  the object of a commit declares as its parents, and \<open>reachable\<close> are the identifiers
  reached from the branch tips along declared parents. \<open>loader_inv\<close> is what holds between
  two rounds of the loader's loop.
\<close>

definition par :: "graph \<Rightarrow> ustr \<Rightarrow> ustr set" where
  "par g c = (case map_of g c of None \<Rightarrow> {} | Some n \<Rightarrow> parents n)"

definition chi :: "graph \<Rightarrow> ustr \<Rightarrow> ustr set" where
  "chi g c = (case map_of g c of None \<Rightarrow> {} | Some n \<Rightarrow> set (children n))"

definition wf_nodes :: "graph \<Rightarrow> bool" where
  "wf_nodes g \<longleftrightarrow> distinct (map fst g) \<and>
     (\<forall>c n. map_of g c = Some n \<longrightarrow> commit_hash n = c \<and> distinct (children n))"

definition declared_parents :: "repo \<Rightarrow> ustr \<Rightarrow> ustr set" where
  "declared_parents git_dir c =
     (case read_commit git_dir c of Inl e \<Rightarrow> {} | Inr body \<Rightarrow> set (parent_regex_findall body))"

definition reachable :: "repo \<Rightarrow> ustr set \<Rightarrow> ustr set" where
  "reachable git_dir tips =
     {c. \<exists>t \<in> tips. (t, c) \<in> rtrancl {(c, p). p \<in> declared_parents git_dir c}}"

definition loader_inv :: "repo \<Rightarrow> ustr set \<Rightarrow> loader \<Rightarrow> bool" where
  "loader_inv git_dir tips s \<longleftrightarrow>
     wf_nodes (graph s) \<and>
     visited s \<subseteq> fst ` set (graph s) \<and>
     fst ` set (graph s) \<subseteq> visited s \<union> set (to_visit s) \<and>
     tips \<subseteq> visited s \<union> set (to_visit s) \<and>
     visited s \<union> set (to_visit s) \<subseteq> reachable git_dir tips \<and>
     (\<forall>c \<in> visited s. \<exists>body. read_commit git_dir c = Inr body) \<and>
     (\<forall>c. par (graph s) c = (if c \<in> visited s then declared_parents git_dir c else {})) \<and>
     (\<forall>c p. p \<in> par (graph s) c \<longrightarrow> c \<in> chi (graph s) p) \<and>
     (\<forall>p c. c \<in> chi (graph s) p \<longrightarrow> c \<in> visited s \<and> p \<in> par (graph s) c)"


section \<open>The formatter\<close>

lemma fold_append_names:
  "fold (\<lambda>name out. out @ sep @ name) names out = out @ concat (map (\<lambda>name. sep @ name) names)"
  by (induction names arbitrary: out) simp_all

lemma fold_cons_names:
  "fold (\<lambda>name out. out @ c # name) names out = out @ concat (map ((#) c) names)"
  by (induction names arbitrary: out) simp_all

lemma branch_names_empty:
  "node_hash \<notin> snd ` set bh \<Longrightarrow> branch_names bh node_hash = []"
  by (force simp: branch_names_def filter_empty_conv)

lemma print_commit_line:
  "print_commit si bh ts (node, next_node) out =
     out @ commit_hash node @
     concat (map (\<lambda>name. str '' '' @ name) (sort (branch_names bh (commit_hash node)))) @
     (case next_node of
        None \<Rightarrow> []
      | Some nn \<Rightarrow>
          if commit_hash node \<in> set (children nn) then []
          else str ''\<newline>'' @
               join (str '' '') [commit_hash n. n \<leftarrow> ts, commit_hash node \<in> set (children n)] @
               str ''='' @ str ''\<newline>'' @ str ''\<newline>'' @
               str ''='' @ join (str '' '') (si (children nn))) @
     str ''\<newline>''"
  using branch_names_empty[of "commit_hash node" bh]
  by (simp add: print_commit_def Let_def fold_cons_names str_def split: option.splits)

lemma print_commit_append:
  "print_commit si bh ts pair out = out @ print_commit si bh ts pair []"
  by (cases pair) (simp add: print_commit_line[where out = out] print_commit_line[where out = "[]"])

lemma fold_print_commit:
  "fold (print_commit si bh ts) pairs out =
     out @ concat (map (\<lambda>pair. print_commit si bh ts pair []) pairs)"
proof (induction pairs arbitrary: out)
  case Nil
  show ?case by simp
next
  case (Cons p ps)
  show ?case
    by (simp add: Cons.IH[of "print_commit si bh ts p out"]) (subst print_commit_append, simp)
qed

text \<open>
  C3, as the code has it. The report is the concatenation of what one round of the loop
  writes for every adjacent pair of the sequence, the last commit paired with \<open>None\<close>.
  One round writes the identifier, the branch names, and then a block exactly when there
  is a following commit whose children do not contain the current identifier, and the
  closing newline; for the last commit there is no block. The block is: a newline, the
  space-joined identifiers of the nodes of the sequence whose children contain the current
  identifier (in the order of the sequence), \<open>=\<close>, a newline, a second newline, \<open>=\<close> and
  the space-joined children of the following commit as the set iterates them. Between the
  two \<open>=\<close> there is an empty line.
\<close>

theorem C3_discontinuity_block:
  "print_commits si bh ts =
     concat (map (\<lambda>pair. print_commit si bh ts pair []) (zip ts (map Some (tl ts) @ [None]))) \<and>
   print_commit si bh ts (node, next_node) out =
     out @ commit_hash node @
     concat (map (\<lambda>name. str '' '' @ name) (sort (branch_names bh (commit_hash node)))) @
     (case next_node of
        None \<Rightarrow> []
      | Some nn \<Rightarrow>
          if commit_hash node \<in> set (children nn) then []
          else str ''\<newline>'' @
               join (str '' '') [commit_hash n. n \<leftarrow> ts, commit_hash node \<in> set (children n)] @
               str ''='' @ str ''\<newline>'' @ str ''\<newline>'' @
               str ''='' @ join (str '' '') (si (children nn))) @
     str ''\<newline>''"
  by (rule conjI, simp add: print_commits_def fold_print_commit, rule print_commit_line)

text \<open>
  C3 as claimed, with one newline between the two \<open>=\<close>, is not what the program writes:
  for the first of two unrelated roots it writes the identifier and then
  \<open>\n=\n\n=\n\<close>, the claimed block gives \<open>\n=\n=\n\<close>.
\<close>

theorem C3_counterexample:
  "commit_hash n1 \<notin> set (children n2) \<and>
   print_commit (\<lambda>xs. xs) [] [n1, n2] (n1, Some n2) [] =
     commit_hash n1 @ str ''\<newline>=\<newline>\<newline>=\<newline>'' \<and>
   commit_hash n1 @ discontinuity_block_claimed [n1, n2] (commit_hash n1) (children n2) @ str ''\<newline>'' =
     commit_hash n1 @ str ''\<newline>=\<newline>=\<newline>'' \<and>
   print_commit (\<lambda>xs. xs) [] [n1, n2] (n1, Some n2) [] \<noteq>
     commit_hash n1 @ discontinuity_block_claimed [n1, n2] (commit_hash n1) (children n2) @ str ''\<newline>''"
  by (simp add: print_commit_def discontinuity_block_claimed_def n1_def n2_def str_def join_def)

section \<open>The branch mapping\<close>

lemma branch_dict_distinct:
  "distinct (map fst d) \<Longrightarrow> branch_dict paths d = Inr bh \<Longrightarrow> distinct (map fst bh)"
proof (induction paths arbitrary: d)
  case Nil
  then show ?case by simp
next
  case (Cons p paths)
  then show ?case
    by (auto split: sum.splits intro: distinct_update)
qed

lemma get_branches_distinct: "get_branches git_dir = Inr bh \<Longrightarrow> distinct (map fst bh)"
  by (auto simp: get_branches_def Let_def split: sum.splits intro: branch_dict_distinct[of "[]"])

lemma branch_names_sorted:
  assumes "distinct (map fst bh)"
  shows "sort (branch_names bh h) = sorted_list_of_set {name. map_of bh name = Some h}"
proof -
  have m: "branch_names bh h = map fst (filter (\<lambda>kv. snd kv = h) bh)"
    by (induction bh) (auto simp: branch_names_def)
  have d: "distinct (branch_names bh h)"
    unfolding m using assms by (rule distinct_map_filter)
  have s: "set (branch_names bh h) = {name. map_of bh name = Some h}"
    using assms by (auto simp: m image_iff)
  have "sorted_list_of_set (set (branch_names bh h)) = sort (branch_names bh h)"
    using d by (simp add: sorted_list_of_set_sort_remdups distinct_remdups_id)
  then show ?thesis by (simp add: s)
qed

text \<open>
  C9: in the branch mapping that \<open>get_branches\<close> returns no name occurs twice, and one
  round of the printing loop writes, behind the commit identifier, the names that the
  mapping sends to that identifier, each once, in ascending order, each behind one space,
  and then only the discontinuity block and the closing newline. A commit that no name is
  mapped to gets the identifier and the newline only.
\<close>

theorem C9_branch_annotations:
  "get_branches git_dir = Inr bh \<Longrightarrow>
     distinct (map fst bh) \<and>
     sort (branch_names bh (commit_hash node)) =
       sorted_list_of_set {name. map_of bh name = Some (commit_hash node)} \<and>
     print_commit si bh ts (node, next_node) out =
       out @ commit_hash node @
       concat (map (\<lambda>name. str '' '' @ name)
                 (sorted_list_of_set {name. map_of bh name = Some (commit_hash node)})) @
       (case next_node of
          None \<Rightarrow> []
        | Some nn \<Rightarrow>
            if commit_hash node \<in> set (children nn) then []
            else str ''\<newline>'' @
                 join (str '' '') [commit_hash n. n \<leftarrow> ts, commit_hash node \<in> set (children n)] @
                 str ''='' @ str ''\<newline>'' @ str ''\<newline>'' @
                 str ''='' @ join (str '' '') (si (children nn))) @
       str ''\<newline>'' \<and>
     ((\<forall>name. map_of bh name \<noteq> Some (commit_hash node)) \<longrightarrow>
        print_commit si bh ts (node, None) out = out @ commit_hash node @ str ''\<newline>'')"
proof -
  assume g: "get_branches git_dir = Inr bh"
  have d: "distinct (map fst bh)" using g by (rule get_branches_distinct)
  note s = branch_names_sorted[OF d, of "commit_hash node"]
  have e: "sort (branch_names bh (commit_hash node)) = []"
    if "\<forall>name. map_of bh name \<noteq> Some (commit_hash node)"
    using that by (simp add: s)
  have l: "print_commit si bh ts (node, None) out =
      out @ commit_hash node @
      concat (map (\<lambda>name. str '' '' @ name) (sort (branch_names bh (commit_hash node)))) @
      str ''\<newline>''"
    by (simp add: print_commit_line[where next_node = None])
  show ?thesis
  proof (intro conjI impI)
    show "distinct (map fst bh)" by (rule d)
    show "sort (branch_names bh (commit_hash node)) =
       sorted_list_of_set {name. map_of bh name = Some (commit_hash node)}" by (rule s)
    show "print_commit si bh ts (node, next_node) out =
       out @ commit_hash node @
       concat (map (\<lambda>name. str '' '' @ name)
                 (sorted_list_of_set {name. map_of bh name = Some (commit_hash node)})) @
       (case next_node of
          None \<Rightarrow> []
        | Some nn \<Rightarrow>
            if commit_hash node \<in> set (children nn) then []
            else str ''\<newline>'' @
                 join (str '' '') [commit_hash n. n \<leftarrow> ts, commit_hash node \<in> set (children n)] @
                 str ''='' @ str ''\<newline>'' @ str ''\<newline>'' @
                 str ''='' @ join (str '' '') (si (children nn))) @
       str ''\<newline>''"
      unfolding s[symmetric] by (rule print_commit_line)
    assume "\<forall>name. map_of bh name \<noteq> Some (commit_hash node)"
    then have "sort (branch_names bh (commit_hash node)) = []" by (rule e)
    then show "print_commit si bh ts (node, None) out = out @ commit_hash node @ str ''\<newline>''"
      by (simp add: l)
  qed
qed

lemma strip_id: "\<forall>c \<in> set h. \<not> isspace c \<Longrightarrow> strip h = h"
proof -
  assume a: "\<forall>c \<in> set h. \<not> isspace c"
  have "dropWhile isspace xs = xs" if "\<forall>c \<in> set xs. \<not> isspace c" for xs
    using that by (cases xs) simp_all
  from this[of h] this[of "rev h"] a show ?thesis by (simp add: strip_def)
qed

lemma first_line_hash:
  assumes "\<forall>c \<in> set h. \<not> isspace c"
  shows "first_line (RegularFile (Some (h @ str ''\<newline>''))) = Inr h"
proof -
  have "isspace 10" "isspace 13" by (simp_all add: isspace_def)
  then have "\<forall>c \<in> set h. c \<noteq> 10 \<and> c \<noteq> 13" using assms by blast
  then have "takeWhile (\<lambda>c. c \<noteq> 10 \<and> c \<noteq> 13) (h @ str ''\<newline>'') = h"
    by (simp add: str_def takeWhile_append2)
  then show ?thesis using strip_id[OF assms] by (simp add: first_line_def)
qed

lemma get_branches_one_branch: "get_branches one_branch = Inr [(str ''main'', replicate 40 98)]"
proof -
  have "first_line (RegularFile (Some (replicate 40 98 @ str ''\<newline>''))) = Inr (replicate 40 98)"
    by (rule first_line_hash) (simp add: isspace_def)
  then show ?thesis
    by (simp add: get_branches_def one_branch_def rglob_def is_file_def as_posix_def join_def)
qed

text \<open>
  The repository with the single branch \<open>main\<close>: the line of the commit \<open>main\<close> points to
  carries the name, the line of another commit carries none.
\<close>

theorem C9_witness:
  "get_branches one_branch = Inr [(str ''main'', commit_hash n2)] \<and>
   (\<forall>name. map_of [(str ''main'', commit_hash n2)] name \<noteq> Some (commit_hash n1)) \<and>
   print_commit (\<lambda>xs. xs) [(str ''main'', commit_hash n2)] [n2, n1] (n1, None) [] =
     commit_hash n1 @ str ''\<newline>'' \<and>
   print_commit (\<lambda>xs. xs) [(str ''main'', commit_hash n2)] [n2, n1] (n2, Some n1) [] =
     commit_hash n2 @ str '' main'' @ str ''\<newline>=\<newline>\<newline>=\<newline>''"
proof -
  have h: "get_branches one_branch = Inr [(str ''main'', commit_hash n2)]"
    using get_branches_one_branch by (simp add: n2_def)
  have u: "\<forall>name. map_of [(str ''main'', commit_hash n2)] name \<noteq> Some (commit_hash n1)"
    by (simp add: n1_def n2_def)
  have s: "{name. map_of [(str ''main'', commit_hash n2)] name = Some (commit_hash n2)} = {str ''main''}"
    by auto
  note c1 = C9_branch_annotations[OF h, where node = n1 and si = "\<lambda>xs. xs" and ts = "[n2, n1]"
        and next_node = None and out = "[]"]
  note c2 = C9_branch_annotations[OF h, where node = n2 and si = "\<lambda>xs. xs" and ts = "[n2, n1]"
        and next_node = "Some n1" and out = "[]"]
  have p1: "print_commit (\<lambda>xs. xs) [(str ''main'', commit_hash n2)] [n2, n1] (n1, None) [] =
     commit_hash n1 @ str ''\<newline>''"
    using c1[THEN conjunct2, THEN conjunct2, THEN conjunct2, THEN mp, OF u] by (simp only: append_Nil)
  have p2: "print_commit (\<lambda>xs. xs) [(str ''main'', commit_hash n2)] [n2, n1] (n2, Some n1) [] =
     commit_hash n2 @ str '' main'' @ str ''\<newline>=\<newline>\<newline>=\<newline>''"
    unfolding c2[THEN conjunct2, THEN conjunct2, THEN conjunct1] s
    by (simp add: n1_def n2_def str_def join_def)
  show ?thesis
    using h u p1 p2 by (intro conjI)
qed

section \<open>The decoder\<close>

lemma utf8_head_length:
  "utf8_head bs = Some (cp, n) \<Longrightarrow> 1 \<le> n \<and> n \<le> length bs"
  by (cases bs) (auto split: if_splits list.splits)

lemma utf8_head_append:
  "utf8_head w = Some (cp, length w) \<Longrightarrow> utf8_head (w @ rest) = Some (cp, length w)"
  by (cases w) (auto split: if_splits list.splits)

lemma utf8_decode_ignore_length: "length (utf8_decode_ignore bs) \<le> length bs"
proof (induction "length bs" arbitrary: bs rule: less_induct)
  case less
  show ?case
  proof (cases bs)
    case Nil
    then show ?thesis by simp
  next
    case (Cons a r)
    show ?thesis
    proof (cases "utf8_head (a # r)")
      case None
      have "length (utf8_decode_ignore r) \<le> length r"
        using less[of r] Cons by simp
      then show ?thesis using None Cons by (simp del: utf8_head.simps)
    next
      case (Some p)
      obtain cp n where p: "p = (cp, n)" by (cases p)
      have "length (utf8_decode_ignore (drop (n - 1) r)) \<le> length (drop (n - 1) r)"
        using less[of "drop (n - 1) r"] Cons by simp
      then show ?thesis using Some p Cons by (simp del: utf8_head.simps)
    qed
  qed
qed

lemma utf8_decode_ignore_wellformed:
  assumes "utf8_head w = Some (cp, length w)"
  shows "utf8_decode_ignore (w @ rest) = cp # utf8_decode_ignore rest"
proof (cases w)
  case Nil
  then show ?thesis using assms by simp
next
  case (Cons a r)
  have "utf8_head (a # r @ rest) = Some (cp, Suc (length r))"
    using utf8_head_append[OF assms, of rest] Cons by simp
  then show ?thesis using Cons by (simp del: utf8_head.simps)
qed

text \<open>
  C8, as the code has it. The decoder is a total function, so decoding fails for no byte
  sequence. Its result is fixed by three equations that hold at every place of the input:
  the empty input gives the empty text; a well-formed sequence gives its code point, in
  front of what the bytes behind it give; a byte at which no well-formed sequence starts
  gives nothing, what is decoded is what the bytes behind it give. So malformed bytes are
  left out and nothing is put in their place. The text is never longer than the input.
\<close>

theorem C8_decode_ignores_malformed:
  "utf8_decode_ignore [] = [] \<and>
   (utf8_head w = Some (cp, length w) \<longrightarrow>
      utf8_decode_ignore (w @ rest) = cp # utf8_decode_ignore rest) \<and>
   (utf8_head (a # rest) = None \<longrightarrow> utf8_decode_ignore (a # rest) = utf8_decode_ignore rest) \<and>
   length (utf8_decode_ignore bs) \<le> length bs"
  using utf8_decode_ignore_length utf8_decode_ignore_wellformed
  by (simp del: utf8_head.simps)

text \<open>
  The euro sign, a byte that starts no sequence, and the letter A decode to the euro sign
  and the letter.
\<close>

theorem C8_witness:
  "utf8_head [0xE2, 0x82, 0xAC] = Some (0x20AC, length [0xE2, 0x82, 0xAC :: byte]) \<and>
   utf8_head [0xFF, 0x41] = None \<and>
   utf8_decode_ignore ([0xE2, 0x82, 0xAC] @ [0xFF, 0x41]) = 0x20AC # utf8_decode_ignore [0xFF, 0x41] \<and>
   utf8_decode_ignore [0xFF, 0x41] = utf8_decode_ignore [0x41] \<and>
   utf8_decode_ignore [0xE2, 0x82, 0xAC, 0xFF, 0x41] = [0x20AC, 0x41]"
proof -
  have h1: "utf8_head [0xE2, 0x82, 0xAC] = Some (0x20AC, length [0xE2, 0x82, 0xAC :: byte])"
    by (simp add: cont_def)
  have h2: "utf8_head [0xFF, 0x41 :: byte] = None" by simp
  note c = C8_decode_ignores_malformed[where w = "[0xE2, 0x82, 0xAC]" and cp = "0x20AC"
      and rest = "[0xFF, 0x41]" and a = "0xFF" and bs = "[]"]
  have e1: "utf8_decode_ignore ([0xE2, 0x82, 0xAC] @ [0xFF, 0x41]) = 0x20AC # utf8_decode_ignore [0xFF, 0x41]"
    using c[THEN conjunct2, THEN conjunct1, THEN mp, OF h1] .
  have e2: "utf8_decode_ignore [0xFF, 0x41] = utf8_decode_ignore [0x41]"
    using C8_decode_ignores_malformed[where a = "0xFF" and rest = "[0x41]" and w = "[]" and cp = 0
      and bs = "[]", THEN conjunct2, THEN conjunct2, THEN conjunct1, THEN mp, OF h2] .
  have e3: "utf8_decode_ignore [0x41] = [0x41]" by simp
  have e4: "utf8_decode_ignore [0xE2, 0x82, 0xAC, 0xFF, 0x41] = [0x20AC, 0x41]"
    using e1 e2 e3 by simp
  show ?thesis using h1 h2 e1 e2 e4 by (intro conjI)
qed

text \<open>
  C8 as claimed fails on the single byte \<open>0xFF\<close>: it starts no well-formed sequence, the
  program decodes it to the empty text, and a decoder that substitutes gives U+FFFD.
\<close>

theorem C8_counterexample:
  "utf8_head [0xFF] = None \<and> utf8_decode_ignore [0xFF] = [] \<and>
   utf8_decode_replace_claimed [0xFF] = [0xFFFD] \<and>
   utf8_decode_ignore [0xFF] \<noteq> utf8_decode_replace_claimed [0xFF]"
  by simp

section \<open>A repository without branch heads\<close>






section \<open>The loader's loop\<close>

lemma visited_expand [simp]: "visited (expand h ps s) = insert h (visited s)"
  by (simp add: expand_def Let_def split_def)

lemma opened_expand [simp]: "opened (expand h ps s) = opened s"
  by (simp add: expand_def Let_def split_def)

lemma get_graph_loop_unfold:
  "get_graph_loop git_dir s =
     (if to_visit s = [] then Some (s, None)
      else if last (to_visit s) \<in> visited s then get_graph_loop git_dir (pop s)
      else case read_commit git_dir (last (to_visit s)) of
             Inl e \<Rightarrow> Some (pop_open s, Some e)
           | Inr text \<Rightarrow>
               get_graph_loop git_dir
                 (expand (last (to_visit s)) (parent_regex_findall text) (pop_open s)))"
  by (subst get_graph_loop.simps) (simp add: Let_def pop_def pop_open_def split: sum.splits)

lemma read_commit_key:
  "read_commit git_dir h = Inr text \<Longrightarrow> (take 2 h, drop 2 h) \<in> fst ` set (objects git_dir)"
  using map_of_eq_None_iff[of "objects git_dir" "(take 2 h, drop 2 h)"]
  by (auto simp: read_commit_def split: option.splits zfile.splits)

lemma key_inj: "inj (\<lambda>h::ustr. (take 2 h, drop 2 h))"
proof (rule injI)
  fix x y :: ustr
  assume "(take 2 x, drop 2 x) = (take 2 y, drop 2 y)"
  then have "take 2 x @ drop 2 x = take 2 y @ drop 2 y" by simp
  then show "x = y" by simp
qed

lemma todo_decreases:
  assumes "read_commit git_dir h = Inr text" and "h \<notin> visited s" and "visited s' = insert h (visited s)"
  shows "todo git_dir s' < todo git_dir s"
proof -
  let ?key = "\<lambda>h::ustr. (take 2 h, drop 2 h)"
  let ?K = "fst ` set (objects git_dir)"
  have k: "?key h \<in> ?K" using assms(1) by (rule read_commit_key)
  have nk: "?key h \<notin> ?key ` visited s"
    using assms(2) key_inj by (auto dest: injD)
  have eq: "?K - ?key ` visited s' = (?K - ?key ` visited s) - {?key h}"
    using assms(3) by auto
  have mem: "?key h \<in> ?K - ?key ` visited s" using k nk by simp
  have fin: "finite (?K - ?key ` visited s)" by simp
  have "card ((?K - ?key ` visited s) - {?key h}) < card (?K - ?key ` visited s)"
    by (rule card_Diff1_less[OF fin mem])
  then show ?thesis
    unfolding todo_def eq .
qed

lemma get_graph_loop_rule:
  assumes I0: "I s"
    and skip: "\<And>s. I s \<Longrightarrow> to_visit s \<noteq> [] \<Longrightarrow> last (to_visit s) \<in> visited s \<Longrightarrow> I (pop s)"
    and step: "\<And>s body. I s \<Longrightarrow> to_visit s \<noteq> [] \<Longrightarrow> last (to_visit s) \<notin> visited s \<Longrightarrow>
                 read_commit git_dir (last (to_visit s)) = Inr body \<Longrightarrow>
                 I (expand (last (to_visit s)) (parent_regex_findall body) (pop_open s))"
    and fin: "\<And>s. I s \<Longrightarrow> to_visit s = [] \<Longrightarrow> Q (s, None)"
    and err: "\<And>s e. I s \<Longrightarrow> to_visit s \<noteq> [] \<Longrightarrow> last (to_visit s) \<notin> visited s \<Longrightarrow>
                 read_commit git_dir (last (to_visit s)) = Inl e \<Longrightarrow> Q (pop_open s, Some e)"
  shows "\<exists>r. get_graph_loop git_dir s = Some r \<and> Q r"
  using I0
proof (induction s rule: wf_induct_rule[OF wf_inv_image[OF wf_lex_prod[OF wf_less_than wf_less_than],
          of "\<lambda>s. (todo git_dir s, length (to_visit s))"]])
  case (1 s)
  note IH = 1(1) and I = 1(2)
  show ?case
  proof (cases "to_visit s = []")
    case True
    then show ?thesis using fin[OF I True] by (subst get_graph_loop_unfold) simp
  next
    case ne: False
    show ?thesis
    proof (cases "last (to_visit s) \<in> visited s")
      case True
      have "(pop s, s) \<in> inv_image (less_than <*lex*> less_than) (\<lambda>s. (todo git_dir s, length (to_visit s)))"
        using ne by (simp add: pop_def todo_def)
      from IH[OF this skip[OF I ne True]] show ?thesis
        using ne True by (subst get_graph_loop_unfold) simp
    next
      case nv: False
      show ?thesis
      proof (cases "read_commit git_dir (last (to_visit s))")
        case (Inl e)
        then show ?thesis using err[OF I ne nv Inl] ne nv
          by (subst get_graph_loop_unfold) simp
      next
        case (Inr body)
        let ?s' = "expand (last (to_visit s)) (parent_regex_findall body) (pop_open s)"
        have "todo git_dir ?s' < todo git_dir s"
          by (rule todo_decreases[OF Inr nv]) (simp add: pop_open_def)
        then have "(?s', s) \<in> inv_image (less_than <*lex*> less_than) (\<lambda>s. (todo git_dir s, length (to_visit s)))"
          by simp
        from IH[OF this step[OF I ne nv Inr]] show ?thesis
          using ne nv Inr by (subst get_graph_loop_unfold) simp
      qed
    qed
  qed
qed

lemma opened_once_loop:
  "opened_once s \<Longrightarrow> \<exists>r. get_graph_loop git_dir s = Some r \<and> distinct (opened (fst r))"
proof (rule get_graph_loop_rule[where I = opened_once and Q = "\<lambda>r. distinct (opened (fst r))"])
  fix s assume "opened_once s"
  then show "opened_once (pop s)" by (simp add: opened_once_def pop_def)
next
  fix s body
  assume "opened_once s" "last (to_visit s) \<notin> visited s"
  then show "opened_once (expand (last (to_visit s)) (parent_regex_findall body) (pop_open s))"
    by (auto simp: opened_once_def pop_open_def)
next
  fix s assume "opened_once s"
  then show "distinct (opened (fst (s, None)))" by (simp add: opened_once_def)
next
  fix s e
  assume "opened_once s" "last (to_visit s) \<notin> visited s"
  then show "distinct (opened (fst (pop_open s, Some e)))"
    by (auto simp: opened_once_def pop_open_def)
qed

text \<open>
  C10: the object store is a finite list of files, and for every such store, every
  branch mapping and whatever the objects declare as parents (themselves, each other), the
  loader's loop returns: with the final state, or with the error of an object that could
  not be read. In the trace of the object files it opened no identifier occurs twice, so
  every object is read and decoded at most once.
\<close>

theorem C10_loader_terminates:
  "\<exists>s e. get_graph_loop git_dir (loader_init heads) = Some (s, e) \<and> distinct (opened s) \<and>
     get_graph heads git_dir \<noteq> None"
proof -
  have "opened_once (loader_init heads)" by (simp add: opened_once_def loader_init_def)
  from opened_once_loop[OF this, of git_dir]
  obtain r where r: "get_graph_loop git_dir (loader_init heads) = Some r" "distinct (opened (fst r))"
    by blast
  obtain s e where "r = (s, e)" by (cases r)
  with r show ?thesis by (auto simp: get_graph_def split: option.splits)
qed

section \<open>The loaded graph\<close>

lemma map_of_ensure_node:
  "map_of (ensure_node h g) k =
     (if k = h then Some (case map_of g h of None \<Rightarrow> new_node h | Some n \<Rightarrow> n) else map_of g k)"
  by (auto simp: ensure_node_def map_add_def split: option.splits)

lemma keys_ensure_node: "fst ` set (ensure_node h g) = insert h (fst ` set g)"
  by (auto simp: ensure_node_def map_of_eq_None_iff image_iff)

lemma distinct_ensure_node:
  "distinct (map fst g) \<Longrightarrow> distinct (map fst (ensure_node h g))"
  by (simp add: ensure_node_def map_of_eq_None_iff)

lemma map_of_touch:
  "map_of (AList.map_entry h f (ensure_node h g)) k =
     (if k = h then Some (f (case map_of g h of None \<Rightarrow> new_node h | Some n \<Rightarrow> n)) else map_of g k)"
  by (simp add: map_of_map_entry map_of_ensure_node)

lemma keys_touch: "fst ` set (AList.map_entry h f (ensure_node h g)) = insert h (fst ` set g)"
  by (simp add: dom_map_entry keys_ensure_node)

lemma par_add_child: "par (AList.map_entry p (add_child h) (ensure_node p g)) k = par g k"
  by (simp add: par_def map_of_touch add_child_def new_node_def split: option.splits)

lemma chi_add_child:
  "chi (AList.map_entry p (add_child h) (ensure_node p g)) k =
     chi g k \<union> (if k = p then {h} else {})"
  by (auto simp: chi_def map_of_touch add_child_def new_node_def split: option.splits)

lemma par_set_parents:
  "par (AList.map_entry h (set_parents ps) (ensure_node h g)) k = (if k = h then set ps else par g k)"
  by (simp add: par_def map_of_touch set_parents_def new_node_def split: option.splits)

lemma chi_set_parents: "chi (AList.map_entry h (set_parents ps) (ensure_node h g)) k = chi g k"
  by (simp add: chi_def map_of_touch set_parents_def new_node_def split: option.splits)

lemma wf_nodes_touch:
  assumes "wf_nodes g"
    and "\<And>n. commit_hash (f n) = commit_hash n"
    and "\<And>n. distinct (children n) \<Longrightarrow> distinct (children (f n))"
  shows "wf_nodes (AList.map_entry h f (ensure_node h g))"
  using assms
  by (auto simp: wf_nodes_def map_of_touch distinct_map_entry distinct_ensure_node new_node_def
      split: option.splits if_splits)

lemma wf_nodes_add_child: "wf_nodes g \<Longrightarrow> wf_nodes (AList.map_entry p (add_child h) (ensure_node p g))"
  by (rule wf_nodes_touch) (auto simp: add_child_def)

lemma wf_nodes_set_parents: "wf_nodes g \<Longrightarrow> wf_nodes (AList.map_entry h (set_parents ps) (ensure_node h g))"
  by (rule wf_nodes_touch) (auto simp: set_parents_def)

lemma add_parents_effect:
  "wf_nodes g \<Longrightarrow>
   wf_nodes (fst (add_parents h vis ps (g, tv))) \<and>
   fst ` set (fst (add_parents h vis ps (g, tv))) = fst ` set g \<union> set ps \<and>
   snd (add_parents h vis ps (g, tv)) = tv @ filter (\<lambda>p. p \<notin> vis) ps \<and>
   (\<forall>k. par (fst (add_parents h vis ps (g, tv))) k = par g k) \<and>
   (\<forall>k. chi (fst (add_parents h vis ps (g, tv))) k = chi g k \<union> (if k \<in> set ps then {h} else {}))"
proof (induction ps arbitrary: g tv)
  case Nil
  then show ?case by simp
next
  case (Cons p ps)
  let ?g = "AList.map_entry p (add_child h) (ensure_node p g)"
  let ?tv = "if p \<notin> vis then tv @ [p] else tv"
  have wf: "wf_nodes ?g" using Cons.prems by (rule wf_nodes_add_child)
  note IH = Cons.IH[OF wf, of ?tv]
  show ?case
    using IH by (auto simp: keys_touch par_add_child chi_add_child)
qed

lemma expand_effect:
  assumes "wf_nodes (graph s)"
  shows "wf_nodes (graph (expand h ps s))"
    and "fst ` set (graph (expand h ps s)) = insert h (fst ` set (graph s) \<union> set ps)"
    and "to_visit (expand h ps s) = to_visit s @ filter (\<lambda>p. p \<notin> visited s) ps"
    and "par (graph (expand h ps s)) k = (if k = h then set ps else par (graph s) k)"
    and "chi (graph (expand h ps s)) k = chi (graph s) k \<union> (if k \<in> set ps then {h} else {})"
proof -
  let ?g = "AList.map_entry h (set_parents ps) (ensure_node h (graph s))"
  have wf: "wf_nodes ?g" using assms by (rule wf_nodes_set_parents)
  note e = add_parents_effect[OF wf, of h "visited s" ps "to_visit s"]
  have g: "graph (expand h ps s) = fst (add_parents h (visited s) ps (?g, to_visit s))"
    and t: "to_visit (expand h ps s) = snd (add_parents h (visited s) ps (?g, to_visit s))"
    by (simp_all add: expand_def Let_def split_def)
  show "wf_nodes (graph (expand h ps s))" using e g by simp
  show "fst ` set (graph (expand h ps s)) = insert h (fst ` set (graph s) \<union> set ps)"
    using e g by (simp add: keys_touch)
  show "to_visit (expand h ps s) = to_visit s @ filter (\<lambda>p. p \<notin> visited s) ps"
    using e t by simp
  show "par (graph (expand h ps s)) k = (if k = h then set ps else par (graph s) k)"
    using e g by (simp add: par_set_parents)
  show "chi (graph (expand h ps s)) k = chi (graph s) k \<union> (if k \<in> set ps then {h} else {})"
    using e g by (simp add: chi_set_parents)
qed

lemma reachable_step:
  "c \<in> reachable git_dir tips \<Longrightarrow> p \<in> declared_parents git_dir c \<Longrightarrow> p \<in> reachable git_dir tips"
  by (auto simp: reachable_def intro: rtrancl_into_rtrancl)

lemma reachable_tip: "t \<in> tips \<Longrightarrow> t \<in> reachable git_dir tips"
  by (auto simp: reachable_def)

lemma reachable_closed:
  assumes "tips \<subseteq> V" and "\<And>c p. c \<in> V \<Longrightarrow> p \<in> declared_parents git_dir c \<Longrightarrow> p \<in> V"
  shows "reachable git_dir tips \<subseteq> V"
proof
  fix c assume "c \<in> reachable git_dir tips"
  then obtain t where t: "t \<in> tips"
    and r: "(t, c) \<in> rtrancl {(c, p). p \<in> declared_parents git_dir c}"
    by (auto simp: reachable_def)
  from r show "c \<in> V"
  proof (induction rule: rtrancl_induct)
    case base
    show ?case using t assms(1) by auto
  next
    case (step y z)
    then show ?case using assms(2) by auto
  qed
qed

lemma set_butlast_last: "xs \<noteq> [] \<Longrightarrow> set xs = insert (last xs) (set (butlast xs))"
  by (cases xs rule: rev_cases) auto

lemma loader_invD:
  assumes "loader_inv git_dir tips s"
  shows "wf_nodes (graph s)"
    and "visited s \<subseteq> fst ` set (graph s)"
    and "fst ` set (graph s) \<subseteq> visited s \<union> set (to_visit s)"
    and "tips \<subseteq> visited s \<union> set (to_visit s)"
    and "visited s \<union> set (to_visit s) \<subseteq> reachable git_dir tips"
    and "\<forall>c \<in> visited s. \<exists>body. read_commit git_dir c = Inr body"
    and "\<forall>c. par (graph s) c = (if c \<in> visited s then declared_parents git_dir c else {})"
    and "\<forall>c p. p \<in> par (graph s) c \<longrightarrow> c \<in> chi (graph s) p"
    and "\<forall>p c. c \<in> chi (graph s) p \<longrightarrow> c \<in> visited s \<and> p \<in> par (graph s) c"
  using assms unfolding loader_inv_def by blast+

lemma loader_invI:
  assumes "wf_nodes (graph s)"
    and "visited s \<subseteq> fst ` set (graph s)"
    and "fst ` set (graph s) \<subseteq> visited s \<union> set (to_visit s)"
    and "tips \<subseteq> visited s \<union> set (to_visit s)"
    and "visited s \<union> set (to_visit s) \<subseteq> reachable git_dir tips"
    and "\<forall>c \<in> visited s. \<exists>body. read_commit git_dir c = Inr body"
    and "\<forall>c. par (graph s) c = (if c \<in> visited s then declared_parents git_dir c else {})"
    and "\<forall>c p. p \<in> par (graph s) c \<longrightarrow> c \<in> chi (graph s) p"
    and "\<forall>p c. c \<in> chi (graph s) p \<longrightarrow> c \<in> visited s \<and> p \<in> par (graph s) c"
  shows "loader_inv git_dir tips s"
  using assms unfolding loader_inv_def by blast

lemma loader_inv_init: "loader_inv git_dir (snd ` set heads) (loader_init heads)"
proof (rule loader_invI)
  show "visited (loader_init heads) \<union> set (to_visit (loader_init heads))
          \<subseteq> reachable git_dir (snd ` set heads)"
    by (auto simp: loader_init_def intro!: reachable_tip rev_image_eqI)
qed (simp_all add: loader_init_def wf_nodes_def par_def chi_def)

lemma loader_inv_skip:
  assumes I: "loader_inv git_dir tips s" and ne: "to_visit s \<noteq> []"
    and v: "last (to_visit s) \<in> visited s"
  shows "loader_inv git_dir tips (pop s)"
proof -
  note o = loader_invD[OF I]
  have "set (to_visit s) = insert (last (to_visit s)) (set (butlast (to_visit s)))"
    using ne by (rule set_butlast_last)
  then have u: "visited s \<union> set (butlast (to_visit s)) = visited s \<union> set (to_visit s)"
    using v by auto
  have p: "graph (pop s) = graph s" "visited (pop s) = visited s"
    "to_visit (pop s) = butlast (to_visit s)"
    by (simp_all add: pop_def)
  show ?thesis
    by (rule loader_invI; (unfold p u)?; (rule o)?)
qed

lemma loader_inv_step:
  assumes I: "loader_inv git_dir tips s" and ne: "to_visit s \<noteq> []"
    and nv: "last (to_visit s) \<notin> visited s"
    and rd: "read_commit git_dir (last (to_visit s)) = Inr body"
  shows "loader_inv git_dir tips (expand (last (to_visit s)) (parent_regex_findall body) (pop_open s))"
proof -
  define h where "h = last (to_visit s)"
  define ps where "ps = parent_regex_findall body"
  define s1 where "s1 = pop_open s"
  define s' where "s' = expand h ps s1"
  note o = loader_invD[OF I]
  have tv: "set (to_visit s) = insert h (set (butlast (to_visit s)))"
    unfolding h_def using ne by (rule set_butlast_last)
  have s1: "graph s1 = graph s" "visited s1 = visited s" "to_visit s1 = butlast (to_visit s)"
    by (simp_all add: s1_def pop_open_def)
  have wf: "wf_nodes (graph s1)" using o(1) by (simp add: s1)
  note ee = expand_effect[OF wf, of h ps, folded s'_def, unfolded s1]
  have vis: "visited s' = insert h (visited s)" by (simp add: s'_def s1)
  have dp: "declared_parents git_dir h = set ps"
    using rd by (simp add: declared_parents_def h_def ps_def)
  have hv: "h \<notin> visited s" using nv by (simp add: h_def)
  have hR: "h \<in> reachable git_dir tips" using o(5) tv by blast
  have psR: "set ps \<subseteq> reachable git_dir tips"
    using reachable_step[OF hR] dp by auto
  have tv': "set (to_visit s') = set (butlast (to_visit s)) \<union> {p \<in> set ps. p \<notin> visited s}"
    by (auto simp: ee(3))
  have a1: "wf_nodes (graph s')" by (rule ee(1))
  have a2: "visited s' \<subseteq> fst ` set (graph s')"
    unfolding vis ee(2) using o(2) by blast
  have a3: "fst ` set (graph s') \<subseteq> visited s' \<union> set (to_visit s')"
    unfolding vis ee(2) tv' using o(3) tv by blast
  have a4: "tips \<subseteq> visited s' \<union> set (to_visit s')"
    unfolding vis tv' using o(4) tv by blast
  have a5: "visited s' \<union> set (to_visit s') \<subseteq> reachable git_dir tips"
    unfolding vis tv' using o(5) tv hR psR by blast
  have a6: "\<forall>c \<in> visited s'. \<exists>body. read_commit git_dir c = Inr body"
    unfolding vis using o(6) rd h_def by blast
  have a7: "\<forall>c. par (graph s') c = (if c \<in> visited s' then declared_parents git_dir c else {})"
    using o(7) hv dp by (simp add: vis ee(4))
  have old1: "\<And>c p. p \<in> par (graph s) c \<Longrightarrow> c \<in> chi (graph s) p"
    and old2: "\<And>c p. c \<in> chi (graph s) p \<Longrightarrow> c \<in> visited s"
    and old3: "\<And>c p. c \<in> chi (graph s) p \<Longrightarrow> p \<in> par (graph s) c"
    using o(8) o(9) by blast+
  have a8: "\<forall>c p. p \<in> par (graph s') c \<longrightarrow> c \<in> chi (graph s') p"
  proof (intro allI impI)
    fix c p assume "p \<in> par (graph s') c"
    then show "c \<in> chi (graph s') p"
      using old1[of p c] by (cases "c = h") (simp_all add: ee(4) ee(5))
  qed
  have a9: "\<forall>p c. c \<in> chi (graph s') p \<longrightarrow> c \<in> visited s' \<and> p \<in> par (graph s') c"
  proof (intro allI impI)
    fix p c assume "c \<in> chi (graph s') p"
    then have "c \<in> chi (graph s) p \<or> (c = h \<and> p \<in> set ps)"
      by (simp add: ee(5) split: if_splits)
    then show "c \<in> visited s' \<and> p \<in> par (graph s') c"
    proof
      assume c: "c \<in> chi (graph s) p"
      then have "c \<noteq> h" using old2[OF c] hv by blast
      then show ?thesis using old2[OF c] old3[OF c] by (simp add: vis ee(4))
    next
      assume "c = h \<and> p \<in> set ps"
      then show ?thesis by (simp add: vis ee(4))
    qed
  qed
  have "loader_inv git_dir tips s'"
    using a1 a2 a3 a4 a5 a6 a7 a8 a9 by (rule loader_invI)
  then show ?thesis
    unfolding s'_def s1_def h_def ps_def .
qed

lemma loader_inv_result:
  "\<exists>r. get_graph_loop git_dir (loader_init heads) = Some r \<and>
     (case r of
        (s, None) \<Rightarrow> loader_inv git_dir (snd ` set heads) s \<and> to_visit s = []
      | (s, Some e) \<Rightarrow> \<exists>c \<in> reachable git_dir (snd ` set heads). read_commit git_dir c = Inl e)"
proof (rule get_graph_loop_rule[where I = "loader_inv git_dir (snd ` set heads)"])
  show "loader_inv git_dir (snd ` set heads) (loader_init heads)" by (rule loader_inv_init)
next
  fix s assume "loader_inv git_dir (snd ` set heads) s" "to_visit s \<noteq> []" "last (to_visit s) \<in> visited s"
  then show "loader_inv git_dir (snd ` set heads) (pop s)" by (rule loader_inv_skip)
next
  fix s body
  assume "loader_inv git_dir (snd ` set heads) s" "to_visit s \<noteq> []" "last (to_visit s) \<notin> visited s"
    "read_commit git_dir (last (to_visit s)) = Inr body"
  then show "loader_inv git_dir (snd ` set heads)
      (expand (last (to_visit s)) (parent_regex_findall body) (pop_open s))"
    by (rule loader_inv_step)
next
  fix s assume "loader_inv git_dir (snd ` set heads) s" "to_visit s = []"
  then show "case (s, None) of
        (s, None) \<Rightarrow> loader_inv git_dir (snd ` set heads) s \<and> to_visit s = []
      | (s, Some e) \<Rightarrow> \<exists>c \<in> reachable git_dir (snd ` set heads). read_commit git_dir c = Inl e"
    by simp
next
  fix s e
  assume I: "loader_inv git_dir (snd ` set heads) s" and ne: "to_visit s \<noteq> []"
    and "last (to_visit s) \<notin> visited s" and rd: "read_commit git_dir (last (to_visit s)) = Inl e"
  have "last (to_visit s) \<in> reachable git_dir (snd ` set heads)"
    using I set_butlast_last[OF ne] by (auto simp: loader_inv_def)
  then show "case (pop_open s, Some e) of
        (s, None) \<Rightarrow> loader_inv git_dir (snd ` set heads) s \<and> to_visit s = []
      | (s, Some e) \<Rightarrow> \<exists>c \<in> reachable git_dir (snd ` set heads). read_commit git_dir c = Inl e"
    using rd by auto
qed

lemma par_Some: "map_of g c = Some n \<Longrightarrow> par g c = parents n"
  by (simp add: par_def)

lemma chi_Some: "map_of g c = Some n \<Longrightarrow> chi g c = set (children n)"
  by (simp add: chi_def)

lemma chi_memD: "k \<in> chi g c \<Longrightarrow> \<exists>n. map_of g c = Some n \<and> k \<in> set (children n)"
  by (auto simp: chi_def split: option.splits)

lemma par_memD: "p \<in> par g c \<Longrightarrow> \<exists>n. map_of g c = Some n \<and> p \<in> parents n"
  by (auto simp: par_def split: option.splits)

lemma get_graph_completed:
  assumes "get_graph heads git_dir = Some (Inr g)"
  shows "\<exists>s. get_graph_loop git_dir (loader_init heads) = Some (s, None) \<and> graph s = g \<and>
           to_visit s = [] \<and> loader_inv git_dir (snd ` set heads) s"
proof -
  from loader_inv_result[of git_dir heads] obtain r where
    r: "get_graph_loop git_dir (loader_init heads) = Some r"
    and c: "case r of
        (s, None) \<Rightarrow> loader_inv git_dir (snd ` set heads) s \<and> to_visit s = []
      | (s, Some e) \<Rightarrow> \<exists>c \<in> reachable git_dir (snd ` set heads). read_commit git_dir c = Inl e"
    by blast
  obtain s e where se: "r = (s, e)" by (cases r)
  show ?thesis
  proof (cases e)
    case None
    then show ?thesis
      using assms r c se by (auto simp: get_graph_def split: if_splits)
  next
    case (Some x)
    then show ?thesis using assms r se by (simp add: get_graph_def)
  qed
qed

lemma loader_inv_final:
  assumes I: "loader_inv git_dir tips s" and e: "to_visit s = []"
  shows "visited s = fst ` set (graph s)"
    and "tips \<subseteq> fst ` set (graph s)"
    and "fst ` set (graph s) = reachable git_dir tips"
    and "card (visited s) = length (graph s)"
proof -
  note o = loader_invD[OF I]
  show v: "visited s = fst ` set (graph s)" using o(2) o(3) e by auto
  show t: "tips \<subseteq> fst ` set (graph s)" using o(4) e v by auto
  have closed: "p \<in> visited s" if "c \<in> visited s" "p \<in> declared_parents git_dir c" for c p
  proof -
    have "p \<in> par (graph s) c" using o(7) that by simp
    then have "c \<in> chi (graph s) p" using o(8) by blast
    then obtain n where "map_of (graph s) p = Some n" using chi_memD by blast
    then have "p \<in> fst ` set (graph s)" by (metis map_of_eq_None_iff option.distinct(1))
    then show ?thesis using v by simp
  qed
  have "reachable git_dir tips \<subseteq> visited s"
    using t v closed by (intro reachable_closed) auto
  then show "fst ` set (graph s) = reachable git_dir tips" using o(5) e v by auto
  have "distinct (map fst (graph s))" using o(1) by (simp add: wf_nodes_def)
  then have "card (set (map fst (graph s))) = length (map fst (graph s))" by (rule distinct_card)
  then show "card (visited s) = length (graph s)" using v by simp
qed

text \<open>
  C5: when loading completes with a graph, no identifier has two nodes; every branch tip
  has a node; and for every node of the graph, under the identifier \<open>c\<close>: its hash is \<open>c\<close>,
  the object of \<open>c\<close> was read and the parents of the node are the parents this object
  declares, every one of these parents has a node whose children contain \<open>c\<close>, and every
  child recorded on the node has a node whose parents contain \<open>c\<close>. The loop ended with the
  visited identifiers being exactly the identifiers of the graph, as many as there are
  nodes, so the check of the two counts behind the loop does not fail.
\<close>

theorem C5_loader_invariants:
  "get_graph heads git_dir = Some (Inr g) \<Longrightarrow>
     distinct (map fst g) \<and>
     snd ` set heads \<subseteq> fst ` set g \<and>
     (\<forall>c n. map_of g c = Some n \<longrightarrow>
        commit_hash n = c \<and>
        (\<exists>body. read_commit git_dir c = Inr body \<and> parents n = set (parent_regex_findall body)) \<and>
        (\<forall>p \<in> parents n. \<exists>np. map_of g p = Some np \<and> c \<in> set (children np)) \<and>
        (\<forall>k \<in> set (children n). \<exists>nk. map_of g k = Some nk \<and> c \<in> parents nk)) \<and>
     (\<exists>s. get_graph_loop git_dir (loader_init heads) = Some (s, None) \<and> graph s = g \<and>
          visited s = fst ` set g \<and> card (visited s) = length g)"
proof -
  assume a: "get_graph heads git_dir = Some (Inr g)"
  from get_graph_completed[OF a] obtain s where
    l: "get_graph_loop git_dir (loader_init heads) = Some (s, None)" and g: "graph s = g"
    and e: "to_visit s = []" and I: "loader_inv git_dir (snd ` set heads) s"
    by blast
  note o = loader_invD[OF I, unfolded g]
  note f = loader_inv_final[OF I e, unfolded g]
  have nodes: "commit_hash n = c \<and>
        (\<exists>body. read_commit git_dir c = Inr body \<and> parents n = set (parent_regex_findall body)) \<and>
        (\<forall>p \<in> parents n. \<exists>np. map_of g p = Some np \<and> c \<in> set (children np)) \<and>
        (\<forall>k \<in> set (children n). \<exists>nk. map_of g k = Some nk \<and> c \<in> parents nk)"
    if m: "map_of g c = Some n" for c n
  proof (intro conjI ballI)
    show "commit_hash n = c" using o(1) m by (simp add: wf_nodes_def)
    have cv: "c \<in> visited s"
      using m f(1) by (metis map_of_eq_None_iff option.distinct(1))
    then obtain body where b: "read_commit git_dir c = Inr body" using o(6) by blast
    have "parents n = declared_parents git_dir c"
      using o(7) cv par_Some[OF m] by simp
    then show "\<exists>body. read_commit git_dir c = Inr body \<and> parents n = set (parent_regex_findall body)"
      using b by (simp add: declared_parents_def)
    fix p assume "p \<in> parents n"
    then have "p \<in> par g c" using par_Some[OF m] by simp
    then have "c \<in> chi g p" using o(8) by blast
    then show "\<exists>np. map_of g p = Some np \<and> c \<in> set (children np)" by (rule chi_memD)
  next
    fix k assume "k \<in> set (children n)"
    then have "k \<in> chi g c" using chi_Some[OF m] by simp
    then have "c \<in> par g k" using o(9) by blast
    then show "\<exists>nk. map_of g k = Some nk \<and> c \<in> parents nk" by (rule par_memD)
  qed
  have d: "distinct (map fst g)" using o(1) by (simp add: wf_nodes_def)
  show ?thesis
    using d f(2) nodes l g f(1) f(4) by blast
qed

section \<open>A repository of two commits\<close>

lemma utf8_decode_ignore_ascii:
  "\<forall>b \<in> set bs. b < 0x80 \<Longrightarrow> utf8_decode_ignore bs = map unat bs"
  by (induction bs) simp_all

lemma parent_match_line:
  assumes h: "length h = 40" "list_all hexdigit h" and m: "map tolower m = str ''parent''"
    and w: "isspace w" and r: "rest = [] \<or> hd rest = 10"
  shows "parent_match (m @ w # h @ rest) = Some h"
proof -
  have "length (map tolower m) = length (str ''parent'')" by (simp only: m)
  then have lm: "length m = 6" by (simp add: str_def)
  have t6: "take 6 (m @ w # h @ rest) = m" using lm by simp
  have n6: "(m @ w # h @ rest) ! 6 = w" using lm by (simp add: nth_append)
  have d7: "drop 7 (m @ w # h @ rest) = h @ rest" using lm by simp
  have t40: "take 40 (h @ rest) = h" using h(1) by simp
  have len: "length (m @ w # h @ rest) = 47 + length rest" using lm h(1) by simp
  have e: "length (m @ w # h @ rest) = 47 \<or> (m @ w # h @ rest) ! 47 = 10"
  proof (cases rest)
    case Nil
    then show ?thesis using len by simp
  next
    case (Cons x xs)
    then have "x = 10" using r by simp
    moreover have "(m @ w # h @ rest) ! 47 = x"
      using lm h(1) Cons by (simp add: nth_append)
    ultimately show ?thesis by simp
  qed
  show ?thesis
    unfolding parent_match_def t6 n6 d7 t40 using len m w h(2) e by simp
qed

lemma findall_parent_line:
  assumes h: "length h = 40" "list_all hexdigit h" and m: "map tolower m = str ''parent''"
    and w: "isspace w"
  shows "findall_from True (m @ w # h @ 10 # rest) = h # findall_from True rest"
    and "findall_from True (m @ w # h) = [h]"
proof -
  have "length (map tolower m) = length (str ''parent'')" by (simp only: m)
  then have lm: "length m = 6" by (simp add: str_def)
  then obtain c cs where mc: "m = c # cs" and lcs: "length cs = 5" by (cases m) auto
  have p1: "parent_match (c # (cs @ w # h @ 10 # rest)) = Some h"
    using parent_match_line[OF h m w, of "10 # rest"] mc by simp
  have p2: "parent_match (c # (cs @ w # h)) = Some h"
    using parent_match_line[OF h m w, of "[]"] mc by simp
  have d1: "drop 46 (cs @ w # h @ 10 # rest) = 10 # rest" using lcs h(1) by simp
  have d2: "drop 46 (cs @ w # h) = []" using lcs h(1) by simp
  have "findall_from True (c # (cs @ w # h @ 10 # rest)) =
          h # findall_from False (drop 46 (cs @ w # h @ 10 # rest))"
    by (simp only: findall_from.simps p1 if_True option.case)
  also have "\<dots> = h # findall_from False (10 # rest)" by (simp only: d1)
  also have "\<dots> = h # findall_from True rest" by simp
  finally show "findall_from True (m @ w # h @ 10 # rest) = h # findall_from True rest"
    unfolding mc by simp
  have "findall_from True (c # (cs @ w # h)) = h # findall_from False (drop 46 (cs @ w # h))"
    by (simp only: findall_from.simps p2 if_True option.case)
  also have "\<dots> = [h]" by (simp only: d2 findall_from.simps)
  finally show "findall_from True (m @ w # h) = [h]"
    unfolding mc by simp
qed

lemma hexdigit_98: "list_all hexdigit (replicate 40 98)"
  by (simp add: list_all_iff hexdigit_def tolower_def)

lemma findall_tree: "parent_regex_findall (str ''tree'') = []"
  by (simp add: parent_regex_findall_def str_def parent_match_def)

lemma findall_parent_98:
  "parent_regex_findall (str ''parent '' @ replicate 40 98 @ str ''\<newline>'') = [replicate 40 98]"
proof -
  have "findall_from True (str ''parent'' @ 32 # replicate 40 98 @ 10 # []) =
          replicate 40 98 # findall_from True []"
    by (rule findall_parent_line(1)[OF _ hexdigit_98]) (simp_all add: str_def tolower_def isspace_def)
  then show ?thesis by (simp add: parent_regex_findall_def str_def)
qed

lemma read_chain_99:
  "read_commit chain (replicate 40 99) = Inr (str ''parent '' @ replicate 40 98 @ str ''\<newline>'')"
proof -
  have "utf8_decode_ignore (bytes_of ''parent '' @ replicate 40 98 @ bytes_of ''\<newline>'') =
          map unat (bytes_of ''parent '' @ replicate 40 98 @ bytes_of ''\<newline>'')"
    by (rule utf8_decode_ignore_ascii) (auto simp: bytes_of_def)
  then show ?thesis by (simp add: read_commit_def chain_def bytes_of_def str_def)
qed

lemma read_chain_98: "read_commit chain (replicate 40 98) = Inr (str ''tree'')"
proof -
  have "utf8_decode_ignore (bytes_of ''tree'') = map unat (bytes_of ''tree'')"
    by (rule utf8_decode_ignore_ascii) (auto simp: bytes_of_def)
  then show ?thesis by (simp add: read_commit_def chain_def bytes_of_def str_def)
qed

lemma get_branches_chain: "get_branches chain = Inr [(str ''main'', replicate 40 99)]"
proof -
  have "first_line (RegularFile (Some (replicate 40 99 @ str ''\<newline>''))) = Inr (replicate 40 99)"
    by (rule first_line_hash) (simp add: isspace_def)
  then show ?thesis
    by (simp add: get_branches_def chain_def rglob_def is_file_def as_posix_def join_def)
qed

lemma get_graph_chain:
  "get_graph [(str ''main'', replicate 40 99)] chain =
     Some (Inr [(replicate 40 99, \<lparr>commit_hash = replicate 40 99, parents = {replicate 40 98}, children = []\<rparr>),
                (replicate 40 98, \<lparr>commit_hash = replicate 40 98, parents = {}, children = [replicate 40 99]\<rparr>)])"
proof -
  let ?c = "replicate 40 (99::nat)" and ?b = "replicate 40 (98::nat)"
  let ?s1 = "\<lparr>graph = [(?c, \<lparr>commit_hash = ?c, parents = {?b}, children = []\<rparr>),
                        (?b, \<lparr>commit_hash = ?b, parents = {}, children = [?c]\<rparr>)],
              to_visit = [?b], visited = {?c}, opened = [?c]\<rparr>"
  let ?s2 = "\<lparr>graph = [(?c, \<lparr>commit_hash = ?c, parents = {?b}, children = []\<rparr>),
                        (?b, \<lparr>commit_hash = ?b, parents = {}, children = [?c]\<rparr>)],
              to_visit = [], visited = {?b, ?c}, opened = [?c, ?b]\<rparr>"
  have ne: "?b \<noteq> ?c" by simp
  have e1: "expand ?c [?b] (pop_open \<lparr>graph = [], to_visit = [?c], visited = {}, opened = []\<rparr>) = ?s1"
    using ne by (simp add: expand_def pop_open_def ensure_node_def new_node_def
        set_parents_def add_child_def)
  have e2: "expand ?b [] (pop_open ?s1) = ?s2"
    using ne by (simp add: expand_def pop_open_def ensure_node_def new_node_def
        set_parents_def add_child_def)
  have "get_graph_loop chain (loader_init [(str ''main'', ?c)]) = get_graph_loop chain ?s1"
    by (subst get_graph_loop_unfold)
      (simp add: read_chain_99 findall_parent_98 e1 loader_init_def)
  also have "\<dots> = get_graph_loop chain ?s2"
    using ne by (subst get_graph_loop_unfold) (simp add: read_chain_98 findall_tree e2)
  also have "\<dots> = Some (?s2, None)"
    by (subst get_graph_loop_unfold) simp
  finally show ?thesis
    using ne by (simp add: get_graph_def card_insert_if)
qed

text \<open>
  In the repository of two commits the root has a node, and its children contain the tip.
\<close>

theorem C5_witness:
  "get_graph [(str ''main'', replicate 40 99)] chain = Some (Inr chain_graph) \<and>
   distinct (map fst chain_graph) \<and>
   snd ` set [(str ''main'', replicate 40 99)] \<subseteq> fst ` set chain_graph \<and>
   (\<exists>np. map_of chain_graph (replicate 40 98) = Some np \<and> replicate 40 99 \<in> set (children np))"
proof -
  have h: "get_graph [(str ''main'', replicate 40 99)] chain = Some (Inr chain_graph)"
    using get_graph_chain by (simp add: chain_graph_def)
  note t = C5_loader_invariants[OF h]
  have m: "map_of chain_graph (replicate 40 99) =
      Some \<lparr>commit_hash = replicate 40 99, parents = {replicate 40 98}, children = []\<rparr>"
    by (simp add: chain_graph_def)
  note n = t[THEN conjunct2, THEN conjunct2, THEN conjunct1, rule_format, OF m]
  have "\<exists>np. map_of chain_graph (replicate 40 98) = Some np \<and> replicate 40 99 \<in> set (children np)"
    by (rule n[THEN conjunct2, THEN conjunct2, THEN conjunct1, THEN bspec]) simp
  then show ?thesis
    using h t[THEN conjunct1] t[THEN conjunct2, THEN conjunct1] by (intro conjI)
qed

section \<open>Objects that cannot be read\<close>









section \<open>The parents of a commit\<close>

lemma split_lines_one: "10 \<notin> set l \<Longrightarrow> split_lines l = [l]"
  by (induction l) auto

lemma findall_skip:
  "10 \<notin> set l \<Longrightarrow> findall_from False (l @ 10 # rest) = findall_from True rest"
  "10 \<notin> set l \<Longrightarrow> findall_from False l = []"
  by (induction l) auto

lemma findall_other_line:
  assumes "10 \<notin> set l"
  shows "parent_match (l @ 10 # rest) = None \<Longrightarrow>
           findall_from True (l @ 10 # rest) = findall_from True rest"
    and "parent_match l = None \<Longrightarrow> findall_from True l = []"
  using assms by (cases l; simp add: findall_skip)+

lemma parent_match_iff:
  "parent_match s = Some h \<longleftrightarrow>
     (\<exists>m w rest. s = m @ w # h @ rest \<and> map tolower m = str ''parent'' \<and> isspace w \<and>
        length h = 40 \<and> list_all hexdigit h \<and> (rest = [] \<or> hd rest = 10))"
proof
  assume a: "parent_match s = Some h"
  then have c: "47 \<le> length s" "map tolower (take 6 s) = str ''parent''" "isspace (s ! 6)"
    "list_all hexdigit (take 40 (drop 7 s))" "length s = 47 \<or> s ! 47 = 10"
    and h: "h = take 40 (drop 7 s)"
    by (auto simp: parent_match_def split: if_splits)
  have "s = take 6 s @ drop 6 s" by simp
  also have "drop 6 s = s ! 6 # drop 7 s"
    using c(1) by (simp add: Cons_nth_drop_Suc[symmetric])
  also have "drop 7 s = h @ drop 47 s"
  proof -
    have "drop 7 s = take 40 (drop 7 s) @ drop 40 (drop 7 s)"
      by (simp only: append_take_drop_id)
    moreover have "drop 40 (drop 7 s) = drop 47 s" by simp
    ultimately show ?thesis unfolding h by simp
  qed
  finally have s: "s = take 6 s @ s ! 6 # h @ drop 47 s" .
  have r: "drop 47 s = [] \<or> hd (drop 47 s) = 10"
  proof (cases "length s = 47")
    case True
    then show ?thesis by simp
  next
    case False
    then have "47 < length s" "s ! 47 = 10" using c(1) c(5) by auto
    then show ?thesis by (simp add: hd_drop_conv_nth)
  qed
  have l: "length h = 40" using c(1) h by simp
  show "\<exists>m w rest. s = m @ w # h @ rest \<and> map tolower m = str ''parent'' \<and> isspace w \<and>
        length h = 40 \<and> list_all hexdigit h \<and> (rest = [] \<or> hd rest = 10)"
    using s c(2) c(3) c(4) r l h by blast
next
  assume "\<exists>m w rest. s = m @ w # h @ rest \<and> map tolower m = str ''parent'' \<and> isspace w \<and>
        length h = 40 \<and> list_all hexdigit h \<and> (rest = [] \<or> hd rest = 10)"
  then show "parent_match s = Some h"
    using parent_match_line by blast
qed

lemma findall_match:
  assumes "parent_match s = Some h"
  shows "parent_regex_findall s =
           h # (case drop 47 s of [] \<Rightarrow> [] | c # rest \<Rightarrow> parent_regex_findall rest)"
proof -
  from assms obtain m w rest where s: "s = m @ w # h @ rest"
    and m: "map tolower m = str ''parent''" and h: "length h = 40"
    and r: "rest = [] \<or> hd rest = 10"
    unfolding parent_match_iff by blast
  have "length (map tolower m) = length (str ''parent'')" by (simp only: m)
  then have lm: "length m = 6" by (simp add: str_def)
  then obtain c cs where mc: "m = c # cs" by (cases m) auto
  have d: "drop 47 s = rest" using s lm h by simp
  have d': "drop 46 (cs @ w # h @ rest) = rest" using mc lm h by simp
  have pm: "parent_match (c # (cs @ w # h @ rest)) = Some h"
    using assms unfolding s mc by simp
  have "findall_from True (c # (cs @ w # h @ rest)) =
          h # findall_from False (drop 46 (cs @ w # h @ rest))"
    by (simp only: findall_from.simps pm if_True option.case)
  then have "parent_regex_findall s = h # findall_from False rest"
    unfolding s mc parent_regex_findall_def d' by simp
  moreover have "findall_from False rest =
      (case rest of [] \<Rightarrow> [] | c # rest \<Rightarrow> parent_regex_findall rest)"
    using r by (cases rest) (simp_all add: parent_regex_findall_def)
  ultimately show ?thesis by (simp add: d)
qed

lemma loaded_parents:
  assumes "get_graph heads git_dir = Some (Inr g)" and "map_of g c = Some n"
  shows "\<exists>body. read_commit git_dir c = Inr body \<and> parents n = set (parent_regex_findall body)"
proof -
  from get_graph_completed[OF assms(1)] obtain s where
    g: "graph s = g" and e: "to_visit s = []" and I: "loader_inv git_dir (snd ` set heads) s"
    by blast
  note o = loader_invD[OF I, unfolded g]
  note f = loader_inv_final[OF I e, unfolded g]
  have cv: "c \<in> visited s"
    using assms(2) f(1) by (metis map_of_eq_None_iff option.distinct(1))
  then obtain body where b: "read_commit git_dir c = Inr body" using o(6) by blast
  have "parents n = declared_parents git_dir c"
    using o(7) cv par_Some[OF assms(2)] by simp
  then show ?thesis using b by (simp add: declared_parents_def)
qed

text \<open>
  C4, as the code has it. The parents recorded on a node of the loaded graph are the set of
  the identifiers that the pattern finds in the decoded object: \<open>set_parents\<close> keeps a
  set, without order or repetition. The pattern matches where a line begins: the six
  letters of \<open>parent\<close> in either case, one white-space character of any kind, forty
  hexadecimal digits in either case, and then the end of the text or a newline. The search
  takes the digits of a match and goes on behind the newline that ends it; where a line
  begins with no match it goes on behind the next newline, and finds nothing more when
  there is none.
\<close>

theorem C4_parents_recorded:
  "(get_graph heads git_dir = Some (Inr g) \<and> map_of g c = Some n \<longrightarrow>
      (\<exists>body. read_commit git_dir c = Inr body \<and> parents n = set (parent_regex_findall body))) \<and>
   parents (set_parents parent_hashes n) = set parent_hashes \<and>
   (parent_match s = Some h \<longleftrightarrow>
      (\<exists>m w rest. s = m @ w # h @ rest \<and> map tolower m = str ''parent'' \<and> isspace w \<and>
         length h = 40 \<and> list_all hexdigit h \<and> (rest = [] \<or> hd rest = 10))) \<and>
   (parent_match s = Some h \<longrightarrow>
      parent_regex_findall s =
        h # (case drop 47 s of [] \<Rightarrow> [] | c # rest \<Rightarrow> parent_regex_findall rest)) \<and>
   (10 \<notin> set l \<and> parent_match (l @ 10 # rest) = None \<longrightarrow>
      parent_regex_findall (l @ 10 # rest) = parent_regex_findall rest) \<and>
   (10 \<notin> set l \<and> parent_match l = None \<longrightarrow> parent_regex_findall l = [])"
  using loaded_parents[of heads git_dir g c n] findall_match[of s h] parent_match_iff[of s h]
    findall_other_line(1)[of l rest] findall_other_line(2)[of l]
  by (simp add: parent_regex_findall_def set_parents_def)

lemma findall_tab_line:
  "parent_match (str ''parent'' @ 9 # replicate 40 98) = Some (replicate 40 98)"
  "parent_regex_findall (str ''parent'' @ 9 # replicate 40 98) = [replicate 40 98]"
proof -
  have m: "map tolower (str ''parent'') = str ''parent''" by (simp add: str_def tolower_def)
  have w: "isspace 9" by (simp add: isspace_def)
  show "parent_match (str ''parent'' @ 9 # replicate 40 98) = Some (replicate 40 98)"
    using parent_match_line[OF _ hexdigit_98 m w, of "[]"] by simp
  show "parent_regex_findall (str ''parent'' @ 9 # replicate 40 98) = [replicate 40 98]"
    unfolding parent_regex_findall_def
    by (rule findall_parent_line(2)[OF _ hexdigit_98 m w]) simp
qed

lemma findall_upper_line:
  "parent_regex_findall (str ''PARENT'' @ 32 # replicate 40 98) = [replicate 40 98]"
proof -
  have m: "map tolower (str ''PARENT'') = str ''parent''" by (simp add: str_def tolower_def)
  have w: "isspace 32" by (simp add: isspace_def)
  show ?thesis
    unfolding parent_regex_findall_def
    by (rule findall_parent_line(2)[OF _ hexdigit_98 m w]) simp
qed

lemma claimed_parents_one_line:
  "10 \<notin> set l \<Longrightarrow> take 7 l \<noteq> str ''parent '' \<Longrightarrow> claimed_parents l = []"
  by (simp add: claimed_parents_def split_lines_one List.map_filter_simps claimed_parent_line_def)

text \<open>
  The tip of the repository of two commits records the parent that its object declares;
  a line with a tab behind the marker matches; a line \<open>tree\<close> does not.
\<close>

theorem C4_witness:
  "get_graph [(str ''main'', replicate 40 99)] chain = Some (Inr chain_graph) \<and>
   map_of chain_graph (replicate 40 99) =
     Some \<lparr>commit_hash = replicate 40 99, parents = {replicate 40 98}, children = []\<rparr> \<and>
   (\<exists>body. read_commit chain (replicate 40 99) = Inr body \<and>
      {replicate 40 98} = set (parent_regex_findall body)) \<and>
   parent_match (str ''parent'' @ 9 # replicate 40 98) = Some (replicate 40 98) \<and>
   parent_regex_findall (str ''parent'' @ 9 # replicate 40 98) = [replicate 40 98] \<and>
   10 \<notin> set (str ''tree'') \<and> parent_match (str ''tree'' @ [10]) = None \<and>
   parent_match (str ''tree'') = None \<and>
   parent_regex_findall (str ''tree'' @ [10]) = parent_regex_findall [] \<and>
   parent_regex_findall (str ''tree'') = []"
proof -
  have g: "get_graph [(str ''main'', replicate 40 99)] chain = Some (Inr chain_graph)"
    using get_graph_chain by (simp add: chain_graph_def)
  have m: "map_of chain_graph (replicate 40 99) =
      Some \<lparr>commit_hash = replicate 40 99, parents = {replicate 40 98}, children = []\<rparr>"
    by (simp add: chain_graph_def)
  have t: "10 \<notin> set (str ''tree'')" "parent_match (str ''tree'' @ [10]) = None"
    "parent_match (str ''tree'') = None"
    by (simp_all add: str_def parent_match_def)
  note c = C4_parents_recorded[where heads = "[(str ''main'', replicate 40 99)]" and git_dir = chain
      and g = chain_graph and c = "replicate 40 99"
      and n = "\<lparr>commit_hash = replicate 40 99, parents = {replicate 40 98}, children = []\<rparr>"
      and s = "str ''parent'' @ 9 # replicate 40 98" and h = "replicate 40 98"
      and l = "str ''tree''" and rest = "[]"]
  have a1: "\<exists>body. read_commit chain (replicate 40 99) = Inr body \<and>
      {replicate 40 98} = set (parent_regex_findall body)"
    using c[THEN conjunct1] g m by simp
  have a2: "parent_regex_findall (str ''parent'' @ 9 # replicate 40 98) = [replicate 40 98]"
    using c[THEN conjunct2, THEN conjunct2, THEN conjunct2, THEN conjunct1] findall_tab_line(1)
    by (simp add: str_def)
  have a3: "parent_regex_findall (str ''tree'' @ [10]) = parent_regex_findall []"
    using c[THEN conjunct2, THEN conjunct2, THEN conjunct2, THEN conjunct2, THEN conjunct1] t
    by simp
  have a4: "parent_regex_findall (str ''tree'') = []"
    using c[THEN conjunct2, THEN conjunct2, THEN conjunct2, THEN conjunct2, THEN conjunct2] t
    by simp
  show ?thesis
    using g m a1 findall_tab_line(1) a2 t a3 a4 by (intro conjI)
qed

text \<open>
  C4 as claimed fails: a line with a tab instead of the space, and a line with the marker
  in capitals, consist of no literal \<open>parent\<close> and one space, yet the program takes their
  identifiers; and a node records the same parents for two lists that differ in order and
  repetition.
\<close>

theorem C4_counterexample:
  "parent_regex_findall (str ''parent'' @ 9 # replicate 40 98) = [replicate 40 98] \<and>
   claimed_parents (str ''parent'' @ 9 # replicate 40 98) = [] \<and>
   parent_regex_findall (str ''PARENT'' @ 32 # replicate 40 98) = [replicate 40 98] \<and>
   claimed_parents (str ''PARENT'' @ 32 # replicate 40 98) = [] \<and>
   parents (set_parents [replicate 40 97, replicate 40 98] n1) =
     parents (set_parents [replicate 40 98, replicate 40 97, replicate 40 98] n1)"
proof -
  have c1: "claimed_parents (str ''parent'' @ 9 # replicate 40 98) = []"
    by (rule claimed_parents_one_line) (simp_all add: str_def)
  have c2: "claimed_parents (str ''PARENT'' @ 32 # replicate 40 98) = []"
    by (rule claimed_parents_one_line) (simp_all add: str_def)
  have c3: "parents (set_parents [replicate 40 97, replicate 40 98] n1) =
     parents (set_parents [replicate 40 98, replicate 40 97, replicate 40 98] n1)"
    by (auto simp: set_parents_def)
  show ?thesis
    using findall_tab_line(2) c1 findall_upper_line c2 c3 by (intro conjI)
qed

end
